theory Spec2Isabelle
  imports Main
begin

section \<open>The singly-linked list of LinkedList.ts\<close>

text \<open>
  The TypeScript class \<^verbatim>\<open>LinkedList<T>\<close> holds one field, \<^verbatim>\<open>head\<close>, and
  manipulates \<^verbatim>\<open>Node<T>\<close> objects that live on the JavaScript heap and are
  compared by identity (\<^verbatim>\<open>===\<close>). The model keeps that aliasing explicit: a node
  reference is an address, and the heap is a pair of total functions giving each
  address its \<^verbatim>\<open>value\<close> and its \<^verbatim>\<open>next\<close> field (\<open>None\<close> is \<^verbatim>\<open>null\<close>).
  Every method takes the state and returns the state it leaves behind.
  Values are compared with \<^verbatim>\<open>===\<close> in the source and with HOL equality
  here, which is the same for strings, booleans, object references and every number
  but \<^verbatim>\<open>NaN\<close>.

  The \<^verbatim>\<open>while (node)\<close> loops of the source follow \<^verbatim>\<open>next\<close> links until
  \<^verbatim>\<open>null\<close>; on a cyclic chain they never return. They are therefore modelled
  as partial functions into \<open>option\<close>, where \<open>None\<close> means that the call does
  not return.
\<close>

subsection \<open>Data model\<close>

type_synonym addr = nat

record 'a state =
  head :: "addr option"
  node_value :: "addr \<Rightarrow> 'a"
  node_next :: "addr \<Rightarrow> addr option"

text \<open>
  The two ways a call of \<^verbatim>\<open>insertAtPosition\<close> can throw: the
  \<^verbatim>\<open>throw new Error(`The position ${position} extends beyond the end of the
  list (which is currently ${i}).`)\<close> of the source, carrying the two numbers of
  the message, and the \<^verbatim>\<open>TypeError\<close> that JavaScript raises when
  \<^verbatim>\<open>currentNode.next\<close> is read while \<^verbatim>\<open>currentNode\<close> is \<^verbatim>\<open>null\<close>.
\<close>

datatype error = PositionError int int | TypeError

subsection \<open>remove\<close>

text \<open>
  \<^verbatim>\<open>
  remove (node) {
    let currentNode = this.head
    let previousNode = null
    while (currentNode) {
      if (currentNode === node) {
        if (previousNode) { previousNode.next = currentNode.next }
        else { this.head = currentNode.next }
        break
      }
      previousNode = currentNode
      currentNode = currentNode.next
    }
    node.next = null
  }
  \<close>
\<close>

partial_function (option) remove_loop ::
  "'a state \<Rightarrow> addr \<Rightarrow> addr option \<Rightarrow> addr option \<Rightarrow> 'a state option" where
  "remove_loop s node currentNode previousNode =
     (case currentNode of
        None \<Rightarrow> Some s
      | Some c \<Rightarrow>
          if c = node then
            (case previousNode of
               Some p \<Rightarrow> Some (s\<lparr>node_next := (node_next s)(p := node_next s c)\<rparr>)
             | None \<Rightarrow> Some (s\<lparr>head := node_next s c\<rparr>))
          else remove_loop s node (node_next s c) (Some c))"

definition remove :: "'a state \<Rightarrow> addr \<Rightarrow> 'a state option" where
  "remove s node =
     (case remove_loop s node (head s) None of
        None \<Rightarrow> None
      | Some s' \<Rightarrow> Some (s'\<lparr>node_next := (node_next s')(node := None)\<rparr>))"

subsection \<open>setHead and insertAfter\<close>

text \<open>
  \<^verbatim>\<open>
  setHead (node) {
    if (this.head === null) { this.head = node; return }
    this.remove(node)
    node.next = this.head
    this.head = node
  }
  insertAfter (existingNode, nodeToInsert) {
    if (existingNode === nodeToInsert) { return }
    this.remove(nodeToInsert)
    nodeToInsert.next = existingNode.next
    existingNode.next = nodeToInsert
  }
  \<close>
\<close>

definition setHead :: "'a state \<Rightarrow> addr \<Rightarrow> 'a state option" where
  "setHead s node =
     (case head s of
        None \<Rightarrow> Some (s\<lparr>head := Some node\<rparr>)
      | Some h \<Rightarrow>
          (case remove s node of
             None \<Rightarrow> None
           | Some s1 \<Rightarrow>
               Some (s1\<lparr>node_next := (node_next s1)(node := head s1), head := Some node\<rparr>)))"

definition insertAfter :: "'a state \<Rightarrow> addr \<Rightarrow> addr \<Rightarrow> 'a state option" where
  "insertAfter s existingNode nodeToInsert =
     (if existingNode = nodeToInsert then Some s
      else
        (case remove s nodeToInsert of
           None \<Rightarrow> None
         | Some s1 \<Rightarrow>
             let s2 = s1\<lparr>node_next :=
                        (node_next s1)(nodeToInsert := node_next s1 existingNode)\<rparr>
             in Some (s2\<lparr>node_next := (node_next s2)(existingNode := Some nodeToInsert)\<rparr>)))"

subsection \<open>The constructor\<close>

text \<open>
  \<^verbatim>\<open>
  constructor (...nodes) {
    if (nodes.length) {
      this.setHead(nodes[0])
      for (let i = 1; i < nodes.length && this.head; i++) {
        this.insertAfter(nodes[i - 1], nodes[i])
      }
    }
  }
  \<close>
  The new object starts with \<^verbatim>\<open>head = null\<close>; the nodes it is given already
  exist on the heap, so the constructor takes the heap (the two field functions) and
  the argument array.
\<close>

function constructor_loop :: "'a state \<Rightarrow> addr list \<Rightarrow> nat \<Rightarrow> 'a state option" where
  "constructor_loop s nodes i =
     (if i < length nodes \<and> head s \<noteq> None then
        (case insertAfter s (nodes ! (i - 1)) (nodes ! i) of
           None \<Rightarrow> None
         | Some s' \<Rightarrow> constructor_loop s' nodes (i + 1))
      else Some s)"
  by pat_completeness auto
termination
  by (relation "measure (\<lambda>(s, nodes, i). length nodes - i)") auto

definition LinkedList ::
  "(addr \<Rightarrow> 'a) \<Rightarrow> (addr \<Rightarrow> addr option) \<Rightarrow> addr list \<Rightarrow> 'a state option" where
  "LinkedList vals nexts nodes =
     (let s = \<lparr>head = None, node_value = vals, node_next = nexts\<rparr> in
      if length nodes \<noteq> 0 then
        (case setHead s (nodes ! 0) of
           None \<Rightarrow> None
         | Some s1 \<Rightarrow> constructor_loop s1 nodes 1)
      else Some s)"

subsection \<open>toString\<close>

text \<open>
  \<^verbatim>\<open>
  toString () {
    let result = []
    let node = this.head
    while (node) { result.push(node.value); node = node.next }
    return result.join(' -> ')
  }
  \<close>
  \<^verbatim>\<open>Array.prototype.join\<close> starts from the empty string and, for each index
  \<open>k\<close>, appends the separator when \<open>k > 0\<close> and then the element converted to a
  string. The conversion of a value of type \<^verbatim>\<open>T\<close> is the parameter \<open>str\<close>
  (the identity when \<^verbatim>\<open>T\<close> is \<^verbatim>\<open>string\<close>).
\<close>

fun join_loop :: "string \<Rightarrow> string list \<Rightarrow> nat \<Rightarrow> string \<Rightarrow> string" where
  "join_loop sep [] k r = r"
| "join_loop sep (x # xs) k r =
     join_loop sep xs (k + 1) ((if k > 0 then r @ sep else r) @ x)"

definition join :: "string \<Rightarrow> string list \<Rightarrow> string" where
  "join sep xs = join_loop sep xs 0 ''''"

partial_function (option) toString_loop ::
  "'a state \<Rightarrow> 'a list \<Rightarrow> addr option \<Rightarrow> ('a list \<times> 'a state) option" where
  "toString_loop s result node =
     (case node of
        None \<Rightarrow> Some (result, s)
      | Some a \<Rightarrow> toString_loop s (result @ [node_value s a]) (node_next s a))"

definition toString :: "('a \<Rightarrow> string) \<Rightarrow> 'a state \<Rightarrow> (string \<times> 'a state) option" where
  "toString str s =
     (case toString_loop s [] (head s) of
        None \<Rightarrow> None
      | Some (result, s') \<Rightarrow> Some (join '' -> '' (map str result), s'))"

subsection \<open>containsNodeWithValue and removeNodesWithValue\<close>

text \<open>
  \<^verbatim>\<open>
  containsNodeWithValue (value) {
    let node = this.head
    while (node) {
      if (node.value === value) { return true }
      node = node.next
    }
    return false
  }
  removeNodesWithValue (value) {
    let node = this.head
    while (node) {
      let nextNode = node.next
      if (node.value === value) { this.remove(node) }
      node = nextNode
    }
  }
  \<close>
\<close>

partial_function (option) containsNodeWithValue_loop ::
  "'a state \<Rightarrow> 'a \<Rightarrow> addr option \<Rightarrow> (bool \<times> 'a state) option" where
  "containsNodeWithValue_loop s v node =
     (case node of
        None \<Rightarrow> Some (False, s)
      | Some a \<Rightarrow>
          if node_value s a = v then Some (True, s)
          else containsNodeWithValue_loop s v (node_next s a))"

definition containsNodeWithValue :: "'a state \<Rightarrow> 'a \<Rightarrow> (bool \<times> 'a state) option" where
  "containsNodeWithValue s v = containsNodeWithValue_loop s v (head s)"

partial_function (option) removeNodesWithValue_loop ::
  "'a state \<Rightarrow> 'a \<Rightarrow> addr option \<Rightarrow> 'a state option" where
  "removeNodesWithValue_loop s v node =
     (case node of
        None \<Rightarrow> Some s
      | Some a \<Rightarrow>
          Option.bind (if node_value s a = v then remove s a else Some s)
            (\<lambda>s'. removeNodesWithValue_loop s' v (node_next s a)))"

definition removeNodesWithValue :: "'a state \<Rightarrow> 'a \<Rightarrow> 'a state option" where
  "removeNodesWithValue s v = removeNodesWithValue_loop s v (head s)"

subsection \<open>insertAtPosition\<close>

text \<open>
  \<^verbatim>\<open>
  insertAtPosition (position, nodeToInsert) {
    this.remove(nodeToInsert)
    let currentNode = this.head
    let previousNode = null
    let i = 1
    while (i < position) {
      previousNode = currentNode
      // @ts-ignore
      currentNode = currentNode.next
      i++
      if (currentNode === null && position > i) {
        throw new Error(`The position ${position} extends beyond the end of the
                         list (which is currently ${i}).`)
      }
    }
    if (previousNode === null) { return this.setHead(nodeToInsert) }
    return this.insertAfter(previousNode, nodeToInsert)
  }
  \<close>
  The scan is bounded by \<open>position\<close>, so it is a total function; it returns the
  final \<^verbatim>\<open>previousNode\<close> or the error thrown. Positions and the counter
  \<open>i\<close> are integers (a \<^verbatim>\<open>number\<close> in the source; fractional positions are not
  modelled).
\<close>

function insertAtPosition_loop ::
  "'a state \<Rightarrow> int \<Rightarrow> addr option \<Rightarrow> addr option \<Rightarrow> int \<Rightarrow> error + addr option" where
  "insertAtPosition_loop s position currentNode previousNode i =
     (if i < position then
        (case currentNode of
           None \<Rightarrow> Inl TypeError
         | Some c \<Rightarrow>
             if node_next s c = None \<and> position > i + 1
             then Inl (PositionError position (i + 1))
             else insertAtPosition_loop s position (node_next s c) (Some c) (i + 1))
      else Inr previousNode)"
  by pat_completeness auto
termination
  by (relation "measure (\<lambda>(s, position, c, p, i). nat (position - i))") auto

declare insertAtPosition_loop.simps [simp del]

definition insertAtPosition ::
  "'a state \<Rightarrow> int \<Rightarrow> addr \<Rightarrow> (error + 'a state) option" where
  "insertAtPosition s position nodeToInsert =
     (case remove s nodeToInsert of
        None \<Rightarrow> None
      | Some s1 \<Rightarrow>
          (case insertAtPosition_loop s1 position (head s1) None 1 of
             Inl e \<Rightarrow> Some (Inl e)
           | Inr None \<Rightarrow> map_option Inr (setHead s1 nodeToInsert)
           | Inr (Some p) \<Rightarrow> map_option Inr (insertAfter s1 p nodeToInsert)))"

subsection \<open>Well-formed lists\<close>

text \<open>
  \<open>chain nx p ns\<close>: following \<open>nx\<close> from the reference \<open>p\<close> visits exactly the
  addresses \<open>ns\<close>, in that order, and then reaches \<^verbatim>\<open>null\<close>. A list object is
  well formed when such a traversal exists from its head; \<open>ns\<close> is then its
  sequence of member nodes and \<open>length ns\<close> its length.
\<close>

fun chain :: "(addr \<Rightarrow> addr option) \<Rightarrow> addr option \<Rightarrow> addr list \<Rightarrow> bool" where
  "chain nx p [] = (p = None)"
| "chain nx p (a # as) = (p = Some a \<and> chain nx (nx a) as)"

definition well_formed :: "'a state \<Rightarrow> addr list \<Rightarrow> bool" where
  "well_formed s ns = chain (node_next s) (head s) ns"

text \<open>The reference with which a traversal of \<open>ns\<close> starts.\<close>

fun first_ref :: "addr list \<Rightarrow> addr option" where
  "first_ref [] = None"
| "first_ref (a # as) = Some a"

text \<open>Reachability from the head by following \<^verbatim>\<open>next\<close> links.\<close>

inductive reachable :: "'a state \<Rightarrow> addr \<Rightarrow> bool" where
  reachable_head: "head s = Some a \<Longrightarrow> reachable s a"
| reachable_next: "reachable s a \<Longrightarrow> node_next s a = Some b \<Longrightarrow> reachable s b"

text \<open>A detached node has no successor.\<close>

definition detached :: "'a state \<Rightarrow> addr \<Rightarrow> bool" where
  "detached s n = (node_next s n = None)"

text \<open>
  What the specification means by values "joined by" a separator: the values in
  order, with the separator between each two neighbours.
\<close>

fun separated_by :: "string \<Rightarrow> string list \<Rightarrow> string" where
  "separated_by sep [] = ''''"
| "separated_by sep [x] = x"
| "separated_by sep (x # y # ys) = x @ sep @ separated_by sep (y # ys)"

subsection \<open>The lists of the test suite\<close>

text \<open>
  Nodes \<^verbatim>\<open>foo, bar, baz, qux, quux\<close> of \<^verbatim>\<open>LinkedList.test.ts\<close> are the
  addresses 0 to 4; every other address holds a detached node.
\<close>

definition test_values :: "addr \<Rightarrow> string" where
  "test_values =
     (\<lambda>a. ''quux'')(0 := ''foo'', 1 := ''bar'', 2 := ''baz'', 3 := ''qux'')"

definition all_detached :: "addr \<Rightarrow> addr option" where
  "all_detached = (\<lambda>a. None)"

definition empty_list :: "string state" where
  "empty_list = \<lparr>head = None, node_value = test_values, node_next = all_detached\<rparr>"

definition foo_bar_baz :: "string state" where
  "foo_bar_baz =
     \<lparr>head = Some 0, node_value = test_values,
      node_next = all_detached(0 := Some 1, 1 := Some 2)\<rparr>"

definition foo_bar_baz_qux :: "string state" where
  "foo_bar_baz_qux =
     \<lparr>head = Some 0, node_value = test_values,
      node_next = all_detached(0 := Some 1, 1 := Some 2, 2 := Some 3)\<rparr>"

text \<open>
  The list \<^verbatim>\<open>new LinkedList(foo, bar, bar2, bar3, baz, qux)\<close> of the test
  "TRUE when 3 matching nodes are in a populated list": six nodes at the addresses
  0 to 5, three of which carry the value \<^verbatim>\<open>bar\<close>.
\<close>

definition three_bars_values :: "addr \<Rightarrow> string" where
  "three_bars_values =
     (\<lambda>a. ''quux'')(0 := ''foo'', 1 := ''bar'', 2 := ''bar'', 3 := ''bar'',
                     4 := ''baz'', 5 := ''qux'')"

definition three_bars :: "string state" where
  "three_bars =
     \<lparr>head = Some 0, node_value = three_bars_values,
      node_next = all_detached(0 := Some 1, 1 := Some 2, 2 := Some 3, 3 := Some 4,
                               4 := Some 5)\<rparr>"

section \<open>Properties of traversals\<close>

text \<open>
  A traversal determines its starting reference and its node sequence, and it never
  visits a node twice: a chain that ends in \<^verbatim>\<open>null\<close> has no cycle.
\<close>

lemma chain_first: "chain nx p as \<Longrightarrow> p = first_ref as"
  by (cases as) auto

lemma chain_unique: "chain nx p as \<Longrightarrow> chain nx p bs \<Longrightarrow> as = bs"
proof (induction as arbitrary: p bs)
  case Nil
  then show ?case by (cases bs) auto
next
  case (Cons a as)
  then show ?case by (cases bs) auto
qed

lemma chain_suffix: "chain nx p (as @ bs) \<Longrightarrow> chain nx (first_ref bs) bs"
proof (induction as arbitrary: p)
  case Nil
  then show ?case using chain_first by fastforce
next
  case (Cons a as)
  from Cons.prems have "chain nx (nx a) (as @ bs)" by simp
  then show ?case by (rule Cons.IH)
qed

lemma chain_next_notin:
  assumes "chain nx (nx a) as" shows "a \<notin> set as"
proof
  assume "a \<in> set as"
  then obtain bs cs where as: "as = bs @ a # cs" by (auto simp: in_set_conv_decomp)
  with assms have "chain nx (first_ref (a # cs)) (a # cs)" using chain_suffix by blast
  then have "chain nx (nx a) cs" by simp
  with assms have "as = cs" by (rule chain_unique)
  with as show False by simp
qed

lemma chain_distinct: "chain nx p as \<Longrightarrow> distinct as"
  by (induction as arbitrary: p) (auto dest: chain_next_notin)

lemma chain_upd_notin: "a \<notin> set as \<Longrightarrow> chain (nx(a := y)) p as = chain nx p as"
  by (induction as arbitrary: p) auto

lemma remove_loop_notin:
  "chain (node_next s) cur as \<Longrightarrow> node \<notin> set as \<Longrightarrow> remove_loop s node cur prev = Some s"
proof (induction as arbitrary: cur prev)
  case Nil
  then show ?case by (simp add: remove_loop.simps)
next
  case (Cons a as)
  then show ?case by (subst remove_loop.simps) auto
qed

lemma remove_loop_found:
  "chain (node_next s) cur (xs @ node # ys) \<Longrightarrow> node \<notin> set xs \<Longrightarrow>
   remove_loop s node cur prev =
     Some (case (if xs = [] then prev else Some (last xs)) of
             Some p \<Rightarrow> s\<lparr>node_next := (node_next s)(p := node_next s node)\<rparr>
           | None \<Rightarrow> s\<lparr>head := node_next s node\<rparr>)"
proof (induction xs arbitrary: cur prev)
  case Nil
  then show ?case by (subst remove_loop.simps) (auto split: option.splits)
next
  case (Cons a xs)
  then show ?case by (subst remove_loop.simps) (auto split: option.splits)
qed

lemma chain_unlink:
  "chain nx p (xs @ node # ys) \<Longrightarrow> xs \<noteq> [] \<Longrightarrow>
   chain (nx(last xs := nx node, node := y)) p (xs @ ys)"
proof (induction xs arbitrary: p)
  case Nil
  then show ?case by simp
next
  case (Cons a xs)
  have d: "distinct ((a # xs) @ node # ys)" using Cons.prems(1) by (rule chain_distinct)
  show ?case
  proof (cases "xs = []")
    case True
    from Cons.prems True have c: "p = Some a" "nx a = Some node" "chain nx (nx node) ys"
      by simp_all
    from d True have n: "a \<notin> set ys" "node \<notin> set ys" "a \<noteq> node" by auto
    from c(3) n(1) have "chain (nx(a := nx node)) (nx node) ys"
      using chain_upd_notin by blast
    with n(2) have "chain (nx(a := nx node, node := y)) (nx node) ys"
      using chain_upd_notin by blast
    with c n True show ?thesis by (simp del: fun_upd_apply add: fun_upd_same fun_upd_other)
  next
    case False
    with Cons d show ?thesis by auto
  qed
qed

lemma state_next_idem: "node_next s n = None \<Longrightarrow> s\<lparr>node_next := (node_next s)(n := None)\<rparr> = s"
  by (cases s) (simp add: fun_upd_idem)

lemma well_formed_distinct: "well_formed s ns \<Longrightarrow> distinct ns"
  unfolding well_formed_def by (rule chain_distinct)

lemma remove_absent:
  assumes "well_formed s ns" and "node \<notin> set ns"
  shows "remove s node = Some (s\<lparr>node_next := (node_next s)(node := None)\<rparr>)"
proof -
  from assms have "remove_loop s node (head s) None = Some s"
    unfolding well_formed_def by (rule remove_loop_notin)
  then show ?thesis by (simp add: remove_def)
qed

lemma well_formed_upd_absent:
  "well_formed s ns \<Longrightarrow> node \<notin> set ns \<Longrightarrow>
   well_formed (s\<lparr>node_next := (node_next s)(node := y)\<rparr>) ns"
  by (simp add: well_formed_def chain_upd_notin del: fun_upd_apply)

lemma remove_loop_first:
  assumes "chain (node_next s) (head s) (node # ys)"
  shows "remove_loop s node (head s) None = Some (s\<lparr>head := node_next s node\<rparr>)"
  using remove_loop_found [of s "head s" "[]" node ys None] assms by simp

lemma remove_loop_later:
  assumes "chain (node_next s) (head s) (xs @ node # ys)" and "node \<notin> set xs" and "xs \<noteq> []"
  shows "remove_loop s node (head s) None =
           Some (s\<lparr>node_next := (node_next s)(last xs := node_next s node)\<rparr>)"
  using remove_loop_found [of s "head s" xs node ys None] assms by simp

lemma remove_member:
  assumes wf: "well_formed s (xs @ node # ys)"
  shows "\<exists>s'. remove s node = Some s' \<and> well_formed s' (xs @ ys) \<and>
              node_next s' node = None \<and> node_value s' = node_value s \<and>
              (\<forall>a. a \<notin> set xs \<and> a \<noteq> node \<longrightarrow> node_next s' a = node_next s a)"
proof -
  from wf have d: "distinct (xs @ node # ys)" by (rule well_formed_distinct)
  then have nx: "node \<notin> set xs" and ny: "node \<notin> set ys" by auto
  from wf have ch: "chain (node_next s) (head s) (xs @ node # ys)"
    by (simp add: well_formed_def)
  show ?thesis
  proof (cases "xs = []")
    case True
    with ch have c: "chain (node_next s) (node_next s node) ys"
      by simp
    from ch True have "remove_loop s node (head s) None = Some (s\<lparr>head := node_next s node\<rparr>)"
      using remove_loop_first [of s node ys] by simp
    then have r: "remove s node =
        Some (s\<lparr>head := node_next s node, node_next := (node_next s)(node := None)\<rparr>)"
      by (simp add: remove_def)
    from c ny have "chain ((node_next s)(node := None)) (node_next s node) ys"
      using chain_upd_notin by blast
    then have "well_formed (s\<lparr>head := node_next s node, node_next := (node_next s)(node := None)\<rparr>) ys"
      by (simp add: well_formed_def del: fun_upd_apply)
    with r True show ?thesis by simp
  next
    case False
    let ?s' = "s\<lparr>node_next := (node_next s)(last xs := node_next s node, node := None)\<rparr>"
    from ch nx False have "remove_loop s node (head s) None =
        Some (s\<lparr>node_next := (node_next s)(last xs := node_next s node)\<rparr>)"
      by (rule remove_loop_later)
    then have r: "remove s node = Some ?s'"
      by (simp add: remove_def)
    from ch False
    have "chain ((node_next s)(last xs := node_next s node, node := None)) (head s) (xs @ ys)"
      by (rule chain_unlink)
    then have w: "well_formed ?s' (xs @ ys)"
      by (simp add: well_formed_def del: fun_upd_apply)
    from False have l: "last xs \<in> set xs" by simp
    have "\<forall>a. a \<notin> set xs \<and> a \<noteq> node \<longrightarrow> node_next ?s' a = node_next s a"
      using l by auto
    with r w show ?thesis by simp
  qed
qed

lemma remove_well_formed:
  assumes wf: "well_formed s ns"
  shows "\<exists>s'. remove s node = Some s' \<and> well_formed s' (remove1 node ns) \<and>
              node_next s' node = None \<and> node_value s' = node_value s"
proof (cases "node \<in> set ns")
  case True
  then obtain xs ys where ns: "ns = xs @ node # ys" and nx: "node \<notin> set xs"
    by (blast dest: split_list_first)
  from nx have r1: "remove1 node (xs @ node # ys) = xs @ ys" by (simp add: remove1_append)
  from wf ns have "well_formed s (xs @ node # ys)" by simp
  then obtain s' where "remove s node = Some s'" "well_formed s' (xs @ ys)"
      "node_next s' node = None" "node_value s' = node_value s"
    using remove_member by blast
  with ns r1 show ?thesis by simp
next
  case False
  with wf have "remove s node = Some (s\<lparr>node_next := (node_next s)(node := None)\<rparr>)"
    by (rule remove_absent)
  moreover from wf False have "well_formed (s\<lparr>node_next := (node_next s)(node := None)\<rparr>) ns"
    by (rule well_formed_upd_absent)
  moreover from False have "remove1 node ns = ns" by (simp add: remove1_idem)
  ultimately show ?thesis by simp
qed

lemma reachable_member:
  assumes r: "reachable s a"
  shows "well_formed s ns \<Longrightarrow> a \<in> set ns"
  using r
proof (induction rule: reachable.induct)
  case (reachable_head s a)
  then show ?case by (cases ns) (auto simp: well_formed_def)
next
  case (reachable_next s a b)
  then have "a \<in> set ns" by simp
  then obtain xs ys where ns: "ns = xs @ a # ys" by (blast dest: split_list)
  with reachable_next.prems have "chain (node_next s) (first_ref (a # ys)) (a # ys)"
    unfolding well_formed_def using chain_suffix by blast
  with reachable_next.hyps(2) have "chain (node_next s) (Some b) ys" by simp
  then have "b \<in> set ys" by (cases ys) auto
  with ns show ?case by simp
qed

lemma chain_reachable:
  "chain (node_next s) p ns \<Longrightarrow> p = head s \<or> (\<exists>c. reachable s c \<and> node_next s c = p) \<Longrightarrow>
   a \<in> set ns \<Longrightarrow> reachable s a"
proof (induction ns arbitrary: p)
  case Nil
  then show ?case by simp
next
  case (Cons b ns)
  from Cons.prems(1) have p: "p = Some b" and c: "chain (node_next s) (node_next s b) ns"
    by simp_all
  from Cons.prems(2) p have rb: "reachable s b"
    by (auto intro: reachable.intros)
  show ?case
  proof (cases "a = b")
    case True
    with rb show ?thesis by simp
  next
    case False
    with Cons.prems(3) have "a \<in> set ns" by simp
    with c rb Cons.IH [of "node_next s b"] show ?thesis by blast
  qed
qed

lemma reachable_iff_member: "well_formed s ns \<Longrightarrow> reachable s a \<longleftrightarrow> a \<in> set ns"
  using reachable_member chain_reachable [of s "head s" ns a]
  unfolding well_formed_def by blast

section \<open>Removal\<close>

lemma well_formed_foo_bar_baz: "well_formed foo_bar_baz [0, 1, 2]"
  by (simp add: well_formed_def foo_bar_baz_def all_detached_def)

text \<open>
  C9. For a well-formed list and a node \<open>n\<close> that is not reachable from the head,
  \<^verbatim>\<open>remove(n)\<close> returns and leaves the state as it was, apart from setting
  \<^verbatim>\<open>n.next\<close> to \<^verbatim>\<open>null\<close>: the head, every value and the \<^verbatim>\<open>next\<close> field of
  every other node are unchanged.
\<close>

theorem remove_unreachable_unchanged:
  assumes "well_formed s ns" and "\<not> reachable s n"
  shows "remove s n = Some (s\<lparr>node_next := (node_next s)(n := None)\<rparr>)"
proof -
  from assms have "n \<notin> set ns" by (simp add: reachable_iff_member)
  with assms(1) show ?thesis by (rule remove_absent)
qed

theorem remove_unreachable_unchanged_witness:
  "well_formed foo_bar_baz [0, 1, 2] \<and> \<not> reachable foo_bar_baz 3 \<and>
   remove foo_bar_baz 3 = Some (foo_bar_baz\<lparr>node_next := (node_next foo_bar_baz)(3 := None)\<rparr>)"
proof -
  have w: "well_formed foo_bar_baz [0, 1, 2]" by (rule well_formed_foo_bar_baz)
  then have r: "\<not> reachable foo_bar_baz 3" by (simp add: reachable_iff_member)
  from w r remove_unreachable_unchanged [OF w r] show ?thesis by simp
qed

text \<open>
  C7. For a well-formed list and any node \<open>n\<close>, \<^verbatim>\<open>remove(n)\<close> returns, and
  afterwards \<^verbatim>\<open>n.next\<close> is \<^verbatim>\<open>null\<close> and \<open>n\<close> is not reachable from the head.
\<close>

theorem remove_detaches:
  assumes "well_formed s ns"
  shows "\<exists>s'. remove s n = Some s' \<and> node_next s' n = None \<and> \<not> reachable s' n"
proof -
  from assms obtain s' where r: "remove s n = Some s'" and w: "well_formed s' (remove1 n ns)"
    and d: "node_next s' n = None"
    using remove_well_formed by blast
  from assms have "distinct ns" by (rule well_formed_distinct)
  then have "n \<notin> set (remove1 n ns)" by simp
  with w have "\<not> reachable s' n" by (simp add: reachable_iff_member)
  with r d show ?thesis by simp
qed

theorem remove_detaches_witness:
  "well_formed foo_bar_baz [0, 1, 2] \<and>
   (\<exists>s'. remove foo_bar_baz 1 = Some s' \<and> node_next s' 1 = None \<and> \<not> reachable s' 1)"
  using remove_detaches [OF well_formed_foo_bar_baz, of 1] well_formed_foo_bar_baz by simp

text \<open>
  C6. For a well-formed list and any node \<open>n\<close>, in the list or not, a second
  \<^verbatim>\<open>remove(n)\<close> right after the first returns the very state the first one left:
  same head, same values, same \<^verbatim>\<open>next\<close> field on every node.
\<close>

theorem remove_idempotent:
  assumes "well_formed s ns"
  shows "\<exists>s1. remove s n = Some s1 \<and> remove s1 n = Some s1"
proof -
  from assms obtain s1 where r: "remove s n = Some s1" and w: "well_formed s1 (remove1 n ns)"
    and d: "node_next s1 n = None"
    using remove_well_formed by blast
  from assms have "distinct ns" by (rule well_formed_distinct)
  then have "n \<notin> set (remove1 n ns)" by simp
  with w have "remove s1 n = Some (s1\<lparr>node_next := (node_next s1)(n := None)\<rparr>)"
    by (rule remove_absent)
  with d have "remove s1 n = Some s1" by (simp add: state_next_idem)
  with r show ?thesis by simp
qed

theorem remove_idempotent_witness:
  "well_formed foo_bar_baz [0, 1, 2] \<and>
   (\<exists>s1. remove foo_bar_baz 1 = Some s1 \<and> remove s1 1 = Some s1)"
  using remove_idempotent [OF well_formed_foo_bar_baz, of 1] well_formed_foo_bar_baz by simp

section \<open>Queries\<close>

lemma toString_loop_chain:
  "chain (node_next s) p ns \<Longrightarrow>
   toString_loop s acc p = Some (acc @ map (node_value s) ns, s)"
proof (induction ns arbitrary: acc p)
  case Nil
  then show ?case by (simp add: toString_loop.simps)
next
  case (Cons a ns)
  then show ?case by (subst toString_loop.simps) simp
qed

lemma join_loop_later:
  "0 < k \<Longrightarrow> join_loop sep xs k r = r @ concat (map (\<lambda>x. sep @ x) xs)"
  by (induction xs arbitrary: k r) simp_all

lemma separated_by_Cons:
  "separated_by sep (x # xs) = x @ concat (map (\<lambda>x. sep @ x) xs)"
  by (induction xs arbitrary: x) simp_all

lemma join_separated_by: "join sep xs = separated_by sep xs"
proof (cases xs)
  case Nil
  then show ?thesis by (simp add: join_def)
next
  case (Cons x xs')
  have "join sep (x # xs') = join_loop sep xs' 1 x" by (simp add: join_def)
  also have "\<dots> = x @ concat (map (\<lambda>x. sep @ x) xs')" by (simp add: join_loop_later)
  also have "\<dots> = separated_by sep (x # xs')" by (simp only: separated_by_Cons)
  finally show ?thesis using Cons by simp
qed

lemma toString_well_formed:
  assumes "well_formed s ns"
  shows "toString str s = Some (separated_by '' -> '' (map (\<lambda>a. str (node_value s a)) ns), s)"
proof -
  from assms have "toString_loop s [] (head s) = Some ([] @ map (node_value s) ns, s)"
    unfolding well_formed_def by (rule toString_loop_chain)
  then show ?thesis by (simp add: toString_def join_separated_by comp_def)
qed

lemma containsNodeWithValue_loop_chain:
  "chain (node_next s) p ns \<Longrightarrow>
   containsNodeWithValue_loop s v p = Some (v \<in> set (map (node_value s) ns), s)"
proof (induction ns arbitrary: p)
  case Nil
  then show ?case by (simp add: containsNodeWithValue_loop.simps)
next
  case (Cons a ns)
  then show ?case by (subst containsNodeWithValue_loop.simps) auto
qed

lemma containsNodeWithValue_well_formed:
  "well_formed s ns \<Longrightarrow>
   containsNodeWithValue s v = Some (v \<in> set (map (node_value s) ns), s)"
  unfolding well_formed_def containsNodeWithValue_def
  by (rule containsNodeWithValue_loop_chain)

lemma well_formed_empty_list: "well_formed empty_list []"
  by (simp add: well_formed_def empty_list_def)

text \<open>
  C3. On a well-formed list \<^verbatim>\<open>toString()\<close> returns the values of the nodes in
  traversal order, from head to tail, with \<^verbatim>\<open>" -> "\<close> (a space, the arrow, a
  space) between neighbours, and the empty string when the list is empty.
\<close>

theorem toString_format:
  assumes "well_formed s ns"
  shows "toString str s =
           Some (separated_by '' -> '' (map (\<lambda>a. str (node_value s a)) ns), s) \<and>
         (ns = [] \<longrightarrow> toString str s = Some ('''', s))"
  using toString_well_formed [OF assms, of str] by simp

theorem toString_format_witness:
  "well_formed foo_bar_baz [0, 1, 2] \<and>
   toString id foo_bar_baz = Some (''foo -> bar -> baz'', foo_bar_baz) \<and>
   well_formed empty_list [] \<and>
   toString id empty_list = Some ('''', empty_list)"
proof -
  have v: "node_value foo_bar_baz = test_values" by (simp add: foo_bar_baz_def)
  from toString_format [OF well_formed_foo_bar_baz, of id]
  have "toString id foo_bar_baz = Some (''foo -> bar -> baz'', foo_bar_baz)"
    by (simp add: v test_values_def)
  moreover from toString_format [OF well_formed_empty_list, of id]
  have "toString id empty_list = Some ('''', empty_list)" by simp
  ultimately show ?thesis using well_formed_foo_bar_baz well_formed_empty_list by simp
qed

text \<open>
  C10. On a well-formed list \<^verbatim>\<open>toString()\<close> and
  \<^verbatim>\<open>containsNodeWithValue(v)\<close> return, and the state they leave is the state
  they were called in: same head, same value and same \<^verbatim>\<open>next\<close> on every node.
\<close>

theorem queries_pure:
  assumes "well_formed s ns"
  shows "(\<exists>r. toString str s = Some (r, s)) \<and> (\<exists>b. containsNodeWithValue s v = Some (b, s))"
  using toString_well_formed [OF assms, of str] containsNodeWithValue_well_formed [OF assms, of v]
  by simp

theorem queries_pure_witness:
  "well_formed foo_bar_baz [0, 1, 2] \<and>
   (\<exists>r. toString id foo_bar_baz = Some (r, foo_bar_baz)) \<and>
   (\<exists>b. containsNodeWithValue foo_bar_baz ''bar'' = Some (b, foo_bar_baz))"
  using queries_pure [OF well_formed_foo_bar_baz, of id "''bar''"] well_formed_foo_bar_baz
  by simp

section \<open>Insertion after a member\<close>

lemma chain_link:
  "chain nx p (xs @ e # ys) \<Longrightarrow> n \<notin> set (xs @ e # ys) \<Longrightarrow>
   chain (nx(n := nx e, e := Some n)) p (xs @ e # n # ys)"
proof (induction xs arbitrary: p)
  case Nil
  then have p: "p = Some e" and c: "chain nx (nx e) ys" and ne: "n \<noteq> e" and ny: "n \<notin> set ys"
    by simp_all
  from c have ey: "e \<notin> set ys" by (rule chain_next_notin)
  from c ny have "chain (nx(n := nx e)) (nx e) ys" using chain_upd_notin by blast
  with ey have "chain (nx(n := nx e, e := Some n)) (nx e) ys" using chain_upd_notin by blast
  with p ne show ?case by (simp del: fun_upd_apply add: fun_upd_same fun_upd_other)
next
  case (Cons x xs)
  from Cons.prems(1) have d: "distinct ((x # xs) @ e # ys)" by (rule chain_distinct)
  from Cons.prems(1) have p: "p = Some x" and c: "chain nx (nx x) (xs @ e # ys)" by simp_all
  from Cons.prems(2) have n: "n \<notin> set (xs @ e # ys)" and xn: "x \<noteq> n" by auto
  from d have xe: "x \<noteq> e" by auto
  from c n have "chain (nx(n := nx e, e := Some n)) (nx x) (xs @ e # n # ys)" by (rule Cons.IH)
  with p xn xe show ?case by (simp del: fun_upd_apply add: fun_upd_same fun_upd_other)
qed

lemma insertAfter_absent:
  assumes wf: "well_formed s (xs @ e # ys)" and n: "n \<notin> set (xs @ e # ys)"
  shows "\<exists>s'. insertAfter s e n = Some s' \<and> well_formed s' (xs @ e # n # ys) \<and>
              node_value s' = node_value s"
proof -
  let ?s1 = "s\<lparr>node_next := (node_next s)(n := None)\<rparr>"
  from wf n have r: "remove s n = Some ?s1" by (rule remove_absent)
  from wf n have "well_formed ?s1 (xs @ e # ys)" by (rule well_formed_upd_absent)
  then have "chain (node_next ?s1) (head s) (xs @ e # ys)" by (simp add: well_formed_def)
  then have "chain ((node_next ?s1)(n := node_next ?s1 e, e := Some n)) (head s) (xs @ e # n # ys)"
    using n by (rule chain_link)
  then have "well_formed (?s1\<lparr>node_next := (node_next ?s1)(n := node_next ?s1 e, e := Some n)\<rparr>)
      (xs @ e # n # ys)"
    by (simp add: well_formed_def del: fun_upd_apply)
  moreover from n have "e \<noteq> n" by auto
  ultimately show ?thesis using r
    by (simp add: insertAfter_def Let_def del: fun_upd_apply)
qed

text \<open>
  C4. On a well-formed list, for a member \<open>e\<close> and a node \<open>n\<close> that is not in
  the list (detached or not), \<^verbatim>\<open>insertAfter(e, n)\<close> followed by
  \<^verbatim>\<open>remove(n)\<close> returns, and \<^verbatim>\<open>toString()\<close> gives the same string after the
  two calls as before them.
\<close>

theorem insertAfter_remove_roundtrip:
  assumes "well_formed s ns" and "reachable s e" and "\<not> reachable s n"
  shows "\<exists>s1 s2 r. insertAfter s e n = Some s1 \<and> remove s1 n = Some s2 \<and>
           toString str s = Some (r, s) \<and> toString str s2 = Some (r, s2)"
proof -
  from assms have e: "e \<in> set ns" and n: "n \<notin> set ns" by (simp_all add: reachable_iff_member)
  from e obtain xs ys where ns: "ns = xs @ e # ys" by (blast dest: split_list)
  from assms(1) n ns obtain s1 where i: "insertAfter s e n = Some s1"
    and w1: "well_formed s1 ((xs @ [e]) @ n # ys)" and v1: "node_value s1 = node_value s"
    using insertAfter_absent [of s xs e ys n] by auto
  from w1 obtain s2 where r: "remove s1 n = Some s2" and w2: "well_formed s2 ((xs @ [e]) @ ys)"
    and v2: "node_value s2 = node_value s1"
    using remove_member by blast
  from w2 ns have w2': "well_formed s2 ns" by simp
  from toString_well_formed [OF assms(1), of str] toString_well_formed [OF w2', of str] v1 v2 i r
  show ?thesis by simp
qed

theorem insertAfter_remove_roundtrip_witness:
  "well_formed foo_bar_baz [0, 1, 2] \<and> reachable foo_bar_baz 1 \<and> \<not> reachable foo_bar_baz 3 \<and>
   (\<exists>s1 s2 r. insertAfter foo_bar_baz 1 3 = Some s1 \<and> remove s1 3 = Some s2 \<and>
      toString id foo_bar_baz = Some (r, foo_bar_baz) \<and> toString id s2 = Some (r, s2))"
proof -
  have w: "well_formed foo_bar_baz [0, 1, 2]" by (rule well_formed_foo_bar_baz)
  then have e: "reachable foo_bar_baz 1" and n: "\<not> reachable foo_bar_baz 3"
    by (simp_all add: reachable_iff_member)
  from w e n insertAfter_remove_roundtrip [OF w e n, of id] show ?thesis by simp
qed

section \<open>Removal by value\<close>

lemma well_formed_next:
  assumes "well_formed s (xs @ a # ys)"
  shows "node_next s a = first_ref ys"
proof -
  from assms have "chain (node_next s) (first_ref (a # ys)) (a # ys)"
    unfolding well_formed_def by (rule chain_suffix)
  then have "chain (node_next s) (node_next s a) ys" by simp
  then show ?thesis by (rule chain_first)
qed

lemma removeNodesWithValue_loop_well_formed:
  "well_formed s (kept @ rest) \<Longrightarrow>
   \<exists>s'. removeNodesWithValue_loop s v (first_ref rest) = Some s' \<and>
        well_formed s' (kept @ filter (\<lambda>a. node_value s a \<noteq> v) rest) \<and>
        node_value s' = node_value s"
proof (induction rest arbitrary: s kept)
  case Nil
  then show ?case by (simp add: removeNodesWithValue_loop.simps)
next
  case (Cons a rest)
  from Cons.prems have nx: "node_next s a = first_ref rest" by (rule well_formed_next)
  show ?case
  proof (cases "node_value s a = v")
    case True
    from Cons.prems obtain s1 where r: "remove s a = Some s1"
      and w1: "well_formed s1 (kept @ rest)" and v1: "node_value s1 = node_value s"
      using remove_member by blast
    from Cons.IH [OF w1] obtain s' where
      l: "removeNodesWithValue_loop s1 v (first_ref rest) = Some s'" and
      w: "well_formed s' (kept @ filter (\<lambda>a. node_value s1 a \<noteq> v) rest)" and
      v': "node_value s' = node_value s1"
      by blast
    from True r nx l have "removeNodesWithValue_loop s v (first_ref (a # rest)) = Some s'"
      by (subst removeNodesWithValue_loop.simps) simp
    with w v' v1 True show ?thesis by simp
  next
    case False
    from Cons.prems have w1: "well_formed s ((kept @ [a]) @ rest)" by simp
    from Cons.IH [OF w1] obtain s' where
      l: "removeNodesWithValue_loop s v (first_ref rest) = Some s'" and
      w: "well_formed s' ((kept @ [a]) @ filter (\<lambda>a. node_value s a \<noteq> v) rest)" and
      v': "node_value s' = node_value s"
      by blast
    from False nx l have "removeNodesWithValue_loop s v (first_ref (a # rest)) = Some s'"
      by (subst removeNodesWithValue_loop.simps) simp
    with w v' False show ?thesis by simp
  qed
qed

text \<open>
  C5. On a well-formed list with nodes \<open>ns\<close>, \<^verbatim>\<open>removeNodesWithValue(v)\<close>
  returns; the list then consists of the nodes of \<open>ns\<close> whose value is not \<open>v\<close>,
  in their original order, no value has changed, and
  \<^verbatim>\<open>containsNodeWithValue(v)\<close> returns \<^verbatim>\<open>false\<close>.
\<close>

theorem removeNodesWithValue_filters:
  assumes "well_formed s ns"
  shows "\<exists>s'. removeNodesWithValue s v = Some s' \<and>
           well_formed s' (filter (\<lambda>a. node_value s a \<noteq> v) ns) \<and>
           node_value s' = node_value s \<and>
           containsNodeWithValue s' v = Some (False, s')"
proof -
  from assms have h: "head s = first_ref ns" unfolding well_formed_def by (rule chain_first)
  from assms have "well_formed s ([] @ ns)" by simp
  from removeNodesWithValue_loop_well_formed [OF this, of v] h
  obtain s' where r: "removeNodesWithValue s v = Some s'"
    and w: "well_formed s' (filter (\<lambda>a. node_value s a \<noteq> v) ns)"
    and v': "node_value s' = node_value s"
    by (auto simp: removeNodesWithValue_def)
  from containsNodeWithValue_well_formed [OF w, of v] v'
  have "containsNodeWithValue s' v = Some (False, s')" by auto
  with r w v' show ?thesis by simp
qed

theorem removeNodesWithValue_filters_witness:
  "well_formed three_bars [0, 1, 2, 3, 4, 5] \<and>
   (\<exists>s'. removeNodesWithValue three_bars ''bar'' = Some s' \<and> well_formed s' [0, 4, 5] \<and>
      node_value s' = node_value three_bars \<and>
      containsNodeWithValue s' ''bar'' = Some (False, s'))"
proof -
  have w: "well_formed three_bars [0, 1, 2, 3, 4, 5]"
    by (simp add: well_formed_def three_bars_def all_detached_def)
  have v: "node_value three_bars = three_bars_values" by (simp add: three_bars_def)
  from removeNodesWithValue_filters [OF w, of "''bar''"]
  show ?thesis using w by (simp add: v three_bars_values_def)
qed

section \<open>Construction\<close>

lemma setHead_empty: "head s = None \<Longrightarrow> setHead s n = Some (s\<lparr>head := Some n\<rparr>)"
  by (simp add: setHead_def)

lemma constructor_loop_well_formed:
  "distinct nodes \<Longrightarrow> 0 < i \<Longrightarrow> i \<le> length nodes \<Longrightarrow> well_formed s (take i nodes) \<Longrightarrow>
   \<exists>s'. constructor_loop s nodes i = Some s' \<and> well_formed s' nodes \<and>
        node_value s' = node_value s"
proof (induction "length nodes - i" arbitrary: i s)
  case 0
  then have "i = length nodes" by simp
  with "0.prems" show ?case by simp
next
  case (Suc k)
  then have lt: "i < length nodes" by simp
  from Suc.prems(2) lt have t: "take i nodes = take (i - 1) nodes @ [nodes ! (i - 1)]"
    using take_Suc_conv_app_nth [of "i - 1" nodes] by simp
  from lt have t': "take (i + 1) nodes = take i nodes @ [nodes ! i]"
    using take_Suc_conv_app_nth [of i nodes] by simp
  from Suc.prems(1) lt have n: "nodes ! i \<notin> set (take i nodes)"
    by (auto simp: in_set_conv_nth nth_eq_iff_index_eq)
  from Suc.prems(4) t have w: "well_formed s (take (i - 1) nodes @ nodes ! (i - 1) # [])" by simp
  from n t have n': "nodes ! i \<notin> set (take (i - 1) nodes @ nodes ! (i - 1) # [])" by simp
  from insertAfter_absent [OF w n'] obtain s1 where
    i1: "insertAfter s (nodes ! (i - 1)) (nodes ! i) = Some s1" and
    w1: "well_formed s1 (take (i - 1) nodes @ [nodes ! (i - 1), nodes ! i])" and
    v1: "node_value s1 = node_value s"
    by auto
  from w1 t t' have w1': "well_formed s1 (take (i + 1) nodes)" by simp
  from Suc.hyps(2) have k: "k = length nodes - (i + 1)" by simp
  from Suc.hyps(1) [OF k Suc.prems(1) _ _ w1'] lt obtain s' where
    l: "constructor_loop s1 nodes (i + 1) = Some s'" and w': "well_formed s' nodes" and
    v': "node_value s' = node_value s1"
    by auto
  from Suc.prems(4) t have "head s \<noteq> None"
    by (cases "take (i - 1) nodes") (auto simp: well_formed_def)
  with lt i1 l have "constructor_loop s nodes i = Some s'" by simp
  with w' v' v1 show ?case by simp
qed

text \<open>
  C8. For pairwise distinct, detached nodes \<open>n\<^sub>1, \<dots>, n\<^sub>k\<close> (\<open>k \<ge> 0\<close>),
  \<^verbatim>\<open>new LinkedList(n1, ..., nk)\<close> returns a list whose traversal from the head
  visits exactly \<open>n\<^sub>1, \<dots>, n\<^sub>k\<close> in that order: its head is \<open>n\<^sub>1\<close>, or
  \<^verbatim>\<open>null\<close> when no node is given. The values of the nodes are unchanged.
\<close>

theorem constructor_builds_list:
  assumes "distinct nodes" and "\<forall>n \<in> set nodes. nexts n = None"
  shows "\<exists>s. LinkedList vals nexts nodes = Some s \<and> well_formed s nodes \<and>
           head s = first_ref nodes \<and> node_value s = vals"
proof (cases nodes)
  case Nil
  then show ?thesis by (simp add: LinkedList_def well_formed_def)
next
  case (Cons n1 rest)
  let ?s0 = "\<lparr>head = None, node_value = vals, node_next = nexts\<rparr>"
  let ?s1 = "?s0\<lparr>head := Some n1\<rparr>"
  have h: "setHead ?s0 (nodes ! 0) = Some ?s1" using Cons by (simp add: setHead_def)
  from assms(2) Cons have "nexts n1 = None" by simp
  then have "well_formed ?s1 (take 1 nodes)" using Cons by (simp add: well_formed_def)
  with assms(1) Cons obtain s where l: "constructor_loop ?s1 nodes 1 = Some s"
    and w: "well_formed s nodes" and v: "node_value s = node_value ?s1"
    using constructor_loop_well_formed [of nodes 1 ?s1] by auto
  from w have "head s = first_ref nodes" unfolding well_formed_def by (rule chain_first)
  moreover from h l Cons have "LinkedList vals nexts nodes = Some s"
    by (simp add: LinkedList_def)
  ultimately show ?thesis using w v by simp
qed

theorem constructor_builds_list_witness:
  "distinct [0, 1, 2 :: addr] \<and> all_detached 0 = None \<and> all_detached 1 = None \<and>
   all_detached 2 = None \<and>
   (\<exists>s. LinkedList test_values all_detached [0, 1, 2] = Some s \<and>
      well_formed s [0, 1, 2] \<and> head s = Some 0 \<and> node_value s = test_values)"
proof -
  have d: "distinct [0, 1, 2 :: addr]" by simp
  have n: "\<forall>n \<in> set [0, 1, 2 :: addr]. all_detached n = None" by (simp add: all_detached_def)
  from constructor_builds_list [OF d n, of test_values] show ?thesis
    by (simp add: all_detached_def)
qed

section \<open>Insertion at a position\<close>

lemma insertAtPosition_loop_done:
  "\<not> i < position \<Longrightarrow> insertAtPosition_loop s position cur prev i = Inr prev"
  by (subst insertAtPosition_loop.simps) simp

lemma insertAtPosition_loop_chain:
  "chain (node_next s) cur rest \<Longrightarrow> rest \<noteq> [] \<Longrightarrow> i < position \<Longrightarrow>
   insertAtPosition_loop s position cur prev i =
     (if position - i > int (length rest)
      then Inl (PositionError position (i + int (length rest)))
      else Inr (Some (rest ! (nat (position - i) - 1))))"
proof (induction rest arbitrary: cur prev i)
  case Nil
  then show ?case by simp
next
  case (Cons c rest)
  from Cons.prems(1) have cur: "cur = Some c" and ch: "chain (node_next s) (node_next s c) rest"
    by simp_all
  show ?case
  proof (cases "rest = []")
    case True
    with ch have nx: "node_next s c = None" by simp
    show ?thesis
    proof (cases "position > i + 1")
      case True
      with cur nx Cons.prems(3) \<open>rest = []\<close> show ?thesis
        by (subst insertAtPosition_loop.simps) simp
    next
      case False
      with Cons.prems(3) have p: "position = i + 1" by simp
      have "insertAtPosition_loop s position cur prev i =
            insertAtPosition_loop s position (node_next s c) (Some c) (i + 1)"
        using cur p by (subst insertAtPosition_loop.simps) simp
      also have "\<dots> = Inr (Some c)" using p by (simp add: insertAtPosition_loop_done)
      finally show ?thesis using p \<open>rest = []\<close> by simp
    qed
  next
    case False
    with ch obtain c' where nx: "node_next s c = Some c'" by (cases rest) auto
    have step: "insertAtPosition_loop s position cur prev i =
          insertAtPosition_loop s position (node_next s c) (Some c) (i + 1)"
      using cur nx Cons.prems(3) by (subst insertAtPosition_loop.simps) simp
    show ?thesis
    proof (cases "i + 1 < position")
      case True
      define m where "m = nat (position - (i + 1)) - 1"
      from True have m: "nat (position - i) - 1 = Suc m" by (simp add: m_def)
      have "insertAtPosition_loop s position (node_next s c) (Some c) (i + 1) =
          (if position - (i + 1) > int (length rest)
           then Inl (PositionError position (i + 1 + int (length rest)))
           else Inr (Some (rest ! m)))"
        unfolding m_def using ch False True by (rule Cons.IH)
      with step m show ?thesis by (simp add: add.assoc)
    next
      case False
      with Cons.prems(3) have p: "position = i + 1" by simp
      with step show ?thesis by (simp add: insertAtPosition_loop_done)
    qed
  qed
qed


lemma insertAtPosition_absent_scan:
  assumes wf: "well_formed s ns" and n: "n \<notin> set ns"
  shows "insertAtPosition s position n =
    (let s1 = s\<lparr>node_next := (node_next s)(n := None)\<rparr> in
     case insertAtPosition_loop s1 position (head s1) None 1 of
       Inl e \<Rightarrow> Some (Inl e)
     | Inr None \<Rightarrow> map_option Inr (setHead s1 n)
     | Inr (Some p) \<Rightarrow> map_option Inr (insertAfter s1 p n))"
  using remove_absent [OF wf n] by (simp add: insertAtPosition_def Let_def)

text \<open>
  Past the tail the scan throws; at the first position after the tail it stops with
  the tail as \<^verbatim>\<open>previousNode\<close>, and \<^verbatim>\<open>insertAfter\<close> appends.
\<close>

lemma insertAtPosition_past_end_throws:
  assumes "well_formed s ns" and "ns \<noteq> []" and "n \<notin> set ns"
    and "int (length ns) + 1 < position"
  shows "insertAtPosition s position n =
           Some (Inl (PositionError position (1 + int (length ns))))"
proof -
  let ?s1 = "s\<lparr>node_next := (node_next s)(n := None)\<rparr>"
  from assms(1,3) have "well_formed ?s1 ns" by (rule well_formed_upd_absent)
  then have "chain (node_next ?s1) (head ?s1) ns" by (simp add: well_formed_def)
  from insertAtPosition_loop_chain [OF this assms(2), of 1 position None] assms(4)
  have "insertAtPosition_loop ?s1 position (head ?s1) None 1 =
      Inl (PositionError position (1 + int (length ns)))"
    by simp
  with insertAtPosition_absent_scan [OF assms(1,3), of position] show ?thesis
    by (simp add: Let_def)
qed

lemma insertAtPosition_at_end_appends:
  assumes wf: "well_formed s ns" and ne: "ns \<noteq> []" and n: "n \<notin> set ns"
  shows "\<exists>s'. insertAtPosition s (int (length ns) + 1) n = Some (Inr s') \<and>
              well_formed s' (ns @ [n]) \<and> node_value s' = node_value s"
proof -
  let ?s1 = "s\<lparr>node_next := (node_next s)(n := None)\<rparr>"
  let ?p = "int (length ns) + 1"
  from wf n have w1: "well_formed ?s1 ns" by (rule well_formed_upd_absent)
  then have ch: "chain (node_next ?s1) (head ?s1) ns" by (simp add: well_formed_def)
  from ne have lt: "1 < ?p" by (cases ns) simp_all
  from ne have l: "ns ! (length ns - 1) = last ns" by (simp add: last_conv_nth)
  from insertAtPosition_loop_chain [OF ch ne lt, of None] l
  have scan: "insertAtPosition_loop ?s1 ?p (head ?s1) None 1 = Inr (Some (last ns))"
    by simp
  from ne have split: "ns = butlast ns @ last ns # []" by simp
  from w1 split have w1': "well_formed ?s1 (butlast ns @ last ns # [])" by simp
  from n split have n': "n \<notin> set (butlast ns @ last ns # [])" by simp
  from insertAfter_absent [OF w1' n'] obtain s' where
    i: "insertAfter ?s1 (last ns) n = Some s'" and
    w': "well_formed s' (butlast ns @ [last ns, n])" and
    v': "node_value s' = node_value ?s1"
    by auto
  from ne have "butlast ns @ [last ns, n] = ns @ [n]" by simp
  with w' have w'': "well_formed s' (ns @ [n])" by simp
  from insertAtPosition_absent_scan [OF wf n, of ?p] scan i
  have "insertAtPosition s ?p n = Some (Inr s')" by (simp add: Let_def)
  with w'' v' show ?thesis by simp
qed

text \<open>
  C1, as amended. On a well-formed, non-empty list of length \<open>L\<close> and for a node
  \<open>n\<close> that is not in the list, \<^verbatim>\<open>insertAtPosition(p, n)\<close> with \<open>p > L + 1\<close>
  throws the out-of-range error, and the error reports the requested position \<open>p\<close>.
  Position \<open>p = L + 1\<close> is in range: the call returns, and \<open>n\<close> is then the last
  node of the list, after the \<open>L\<close> nodes it had, with all values unchanged.
\<close>

theorem insertAtPosition_beyond_end:
  assumes "well_formed s ns" and "ns \<noteq> []" and "\<not> reachable s n"
  shows "(int (length ns) + 1 < position \<longrightarrow>
           (\<exists>i. insertAtPosition s position n = Some (Inl (PositionError position i)))) \<and>
         (position = int (length ns) + 1 \<longrightarrow>
           (\<exists>s'. insertAtPosition s position n = Some (Inr s') \<and>
                 well_formed s' (ns @ [n]) \<and> node_value s' = node_value s))"
proof -
  from assms(1,3) have n: "n \<notin> set ns" by (simp add: reachable_iff_member)
  show ?thesis
  proof (intro conjI impI)
    assume "int (length ns) + 1 < position"
    with assms(1,2) n show "\<exists>i. insertAtPosition s position n =
        Some (Inl (PositionError position i))"
      using insertAtPosition_past_end_throws by blast
  next
    assume "position = int (length ns) + 1"
    with insertAtPosition_at_end_appends [OF assms(1,2) n]
    show "\<exists>s'. insertAtPosition s position n = Some (Inr s') \<and>
        well_formed s' (ns @ [n]) \<and> node_value s' = node_value s"
      by simp
  qed
qed

theorem insertAtPosition_beyond_end_witness:
  "well_formed foo_bar_baz [0, 1, 2] \<and> [0, 1, 2 :: addr] \<noteq> [] \<and> \<not> reachable foo_bar_baz 3 \<and>
   int (length [0, 1, 2 :: addr]) + 1 < 99 \<and>
   (\<exists>i. insertAtPosition foo_bar_baz 99 3 = Some (Inl (PositionError 99 i))) \<and>
   4 = int (length [0, 1, 2 :: addr]) + 1 \<and>
   (\<exists>s'. insertAtPosition foo_bar_baz 4 3 = Some (Inr s') \<and> well_formed s' [0, 1, 2, 3] \<and>
      node_value s' = node_value foo_bar_baz)"
proof -
  have w: "well_formed foo_bar_baz [0, 1, 2]" by (rule well_formed_foo_bar_baz)
  then have r: "\<not> reachable foo_bar_baz 3" by (simp add: reachable_iff_member)
  have e: "[0, 1, 2 :: addr] \<noteq> []" by simp
  from w e r insertAtPosition_beyond_end [OF w e r, of 99]
    insertAtPosition_beyond_end [OF w e r, of 4]
  show ?thesis by simp
qed

text \<open>
  The claim as stated fails at \<open>p = L + 1\<close>: on the three-node list of the test
  suite, \<^verbatim>\<open>insertAtPosition(4, qux)\<close> with the detached node \<^verbatim>\<open>qux\<close> throws
  nothing and appends \<^verbatim>\<open>qux\<close> after \<^verbatim>\<open>baz\<close>. And where the call does throw,
  at position 5, the second number of the message is 4 while the list has 3 nodes.
\<close>

theorem insertAtPosition_beyond_length_counterexample:
  "well_formed foo_bar_baz [0, 1, 2] \<and> \<not> reachable foo_bar_baz 3 \<and> detached foo_bar_baz 3 \<and>
   int (length [0, 1, 2 :: addr]) < 4 \<and>
   insertAtPosition foo_bar_baz 4 3 =
     Some (Inr (foo_bar_baz\<lparr>node_next := (node_next foo_bar_baz)(2 := Some 3)\<rparr>)) \<and>
   insertAtPosition foo_bar_baz 5 3 = Some (Inl (PositionError 5 4))"
proof -
  have w: "well_formed foo_bar_baz [0, 1, 2]" by (rule well_formed_foo_bar_baz)
  then have r: "\<not> reachable foo_bar_baz 3" by (simp add: reachable_iff_member)
  have d: "detached foo_bar_baz 3" by (simp add: detached_def foo_bar_baz_def all_detached_def)
  have a: "insertAtPosition foo_bar_baz 4 3 =
     Some (Inr (foo_bar_baz\<lparr>node_next := (node_next foo_bar_baz)(2 := Some 3)\<rparr>))"
    by (simp add: insertAtPosition_def insertAtPosition_loop.simps insertAfter_def
        remove_def remove_loop.simps foo_bar_baz_def all_detached_def Let_def)
  have b: "insertAtPosition foo_bar_baz 5 3 = Some (Inl (PositionError 5 4))"
    by (simp add: insertAtPosition_def insertAtPosition_loop.simps
        remove_def remove_loop.simps foo_bar_baz_def all_detached_def)
  from w r d a b show ?thesis by simp
qed

text \<open>
  The null read is confined to the empty list: when the list still has a node after
  \<open>n\<close> has been detached, the call returns or throws the out-of-range error.
\<close>

lemma insertAtPosition_nonempty_total:
  assumes wf: "well_formed s ns" and ne: "ns \<noteq> []" and n: "n \<notin> set ns"
  shows "(\<exists>s'. insertAtPosition s position n = Some (Inr s')) \<or>
         (\<exists>i. insertAtPosition s position n = Some (Inl (PositionError position i)))"
proof -
  let ?s1 = "s\<lparr>node_next := (node_next s)(n := None)\<rparr>"
  from wf n have w1: "well_formed ?s1 ns" by (rule well_formed_upd_absent)
  from w1 n have r1: "remove ?s1 n = Some (?s1\<lparr>node_next := (node_next ?s1)(n := None)\<rparr>)"
    by (rule remove_absent)
  from r1 have ia: "\<And>p. \<exists>s'. insertAfter ?s1 p n = Some s'"
    by (simp add: insertAfter_def Let_def)
  from r1 have sh: "\<exists>s'. setHead ?s1 n = Some s'"
    by (simp add: setHead_def split: option.splits)
  from w1 have ch: "chain (node_next ?s1) (head ?s1) ns" by (simp add: well_formed_def)
  note scan = insertAtPosition_absent_scan [OF wf n, of position]
  show ?thesis
  proof (cases "1 < position")
    case True
    from insertAtPosition_loop_chain [OF ch ne True, of None]
    consider i where "insertAtPosition_loop ?s1 position (head ?s1) None 1 =
        Inl (PositionError position i)"
      | p where "insertAtPosition_loop ?s1 position (head ?s1) None 1 = Inr (Some p)"
      by (auto split: if_splits)
    then show ?thesis
    proof cases
      case 1
      with scan show ?thesis by (simp add: Let_def)
    next
      case 2
      with scan ia [of p] show ?thesis by (auto simp: Let_def)
    qed
  next
    case False
    then have "insertAtPosition_loop ?s1 position (head ?s1) None 1 = Inr None"
      by (simp add: insertAtPosition_loop_done)
    with scan sh show ?thesis by (auto simp: Let_def)
  qed
qed

text \<open>
  C2. The claim: on every well-formed list, the empty one included, and for every
  position \<open>p \<ge> 1\<close>, \<^verbatim>\<open>insertAtPosition\<close> returns or throws the out-of-range
  error, and never reads \<^verbatim>\<open>currentNode.next\<close> of a \<^verbatim>\<open>null\<close>
  \<^verbatim>\<open>currentNode\<close>. The code does not meet it: on the empty list, position 2 makes
  the scan read \<^verbatim>\<open>next\<close> of the \<^verbatim>\<open>null\<close> head, which is a \<^verbatim>\<open>TypeError\<close>.
\<close>

theorem insertAtPosition_empty_list_TypeError:
  "well_formed empty_list [] \<and> detached empty_list 0 \<and>
   insertAtPosition empty_list 2 0 = Some (Inl TypeError)"
proof -
  have w: "well_formed empty_list []" by (rule well_formed_empty_list)
  have d: "detached empty_list 0" by (simp add: detached_def empty_list_def all_detached_def)
  have "insertAtPosition empty_list 2 0 = Some (Inl TypeError)"
    by (simp add: insertAtPosition_def insertAtPosition_loop.simps
        remove_def remove_loop.simps empty_list_def)
  with w d show ?thesis by simp
qed

section \<open>The expectations of the test suite\<close>

text \<open>
  The model run on inputs of \<^verbatim>\<open>LinkedList.test.ts\<close> gives the strings the tests
  expect, on the paths that move a node which is already in the list as well.
\<close>

lemmas eval_defs = insertAtPosition_def insertAtPosition_loop.simps insertAfter_def setHead_def
  remove_def remove_loop.simps toString_def toString_loop.simps join_def
  foo_bar_baz_def foo_bar_baz_qux_def all_detached_def test_values_def Let_def

lemma test_insertAtPosition_middle:
  "(case insertAtPosition foo_bar_baz_qux 3 4 of
      Some (Inr s) \<Rightarrow> map_option fst (toString id s) | _ \<Rightarrow> None) =
   Some ''foo -> bar -> quux -> baz -> qux''"
  by (simp add: eval_defs)

lemma test_insertAtPosition_existing_tail:
  "(case insertAtPosition foo_bar_baz_qux 4 1 of
      Some (Inr s) \<Rightarrow> map_option fst (toString id s) | _ \<Rightarrow> None) =
   Some ''foo -> baz -> qux -> bar''"
  by (simp add: eval_defs)

lemma test_insertAtPosition_existing_head:
  "(case insertAtPosition foo_bar_baz_qux 1 2 of
      Some (Inr s) \<Rightarrow> map_option fst (toString id s) | _ \<Rightarrow> None) =
   Some ''baz -> foo -> bar -> qux''"
  by (simp add: eval_defs)

lemma test_remove_head:
  "(case remove foo_bar_baz 0 of
      Some s \<Rightarrow> map_option fst (toString id s) | _ \<Rightarrow> None) = Some ''bar -> baz''"
  by (simp add: eval_defs)

lemma test_insertAfter_existing:
  "(case insertAfter foo_bar_baz_qux 3 1 of
      Some s \<Rightarrow> map_option fst (toString id s) | _ \<Rightarrow> None) =
   Some ''foo -> baz -> qux -> bar''"
  by (simp add: eval_defs)

lemma test_insertAtPosition_beyond:
  "insertAtPosition foo_bar_baz 99 3 = Some (Inl (PositionError 99 4))"
  by (simp add: eval_defs)

end
